theory Spec2Isabelle
  imports Main "HOL-Library.Word"
begin

unbundle bit_operations_syntax

section \<open>Strings, runes and results\<close>

text \<open>
  A Go string is modelled by the sequence of code points that \<^verbatim>\<open>[]rune(s)\<close> and the
  regular-expression engine read from it. The separators the code looks for
  (\<^verbatim>\<open>%\<close>, \<^verbatim>\<open>|\<close>, \<^verbatim>\<open>:\<close>) are single bytes, so indexing and splitting on them agree
  on bytes and on runes.
\<close>

type_synonym rune = nat

abbreviation rn :: "char \<Rightarrow> rune" where
  "rn \<equiv> of_char"

abbreviation str :: "string \<Rightarrow> rune list" where
  "str \<equiv> map of_char"

text \<open>A call either panics (an index out of range) or returns.\<close>

datatype 'a outcome = Panic | Return 'a

datatype error = InvalidWildcard "rune list" | RegexpError

text \<open>An indexed read: \<open>None\<close> is Go's run-time panic.\<close>

definition rd :: "'a list \<Rightarrow> nat \<Rightarrow> 'a option" where
  "rd xs i = (if i < length xs then Some (xs ! i) else None)"

text \<open>\<^verbatim>\<open>strings.Split(s, sep)\<close> for a one-byte separator; the empty string gives one empty field.\<close>

fun split_on :: "'a \<Rightarrow> 'a list \<Rightarrow> 'a list list" where
  "split_on d [] = [[]]"
| "split_on d (x # xs) =
     (if x = d then [] # split_on d xs
      else (case split_on d xs of a # r \<Rightarrow> (x # a) # r | [] \<Rightarrow> [[x]]))"

section \<open>The regular expressions the pattern compiler writes\<close>

text \<open>
  \<^verbatim>\<open>compilePattern\<close> writes its expression piece by piece into a buffer. Each piece is
  one of the following; \<open>tok_text\<close> is the text the code writes for it.
\<close>

datatype tok =
    Caret | Dollar | Bar | Slash | EitherSlash | DotStar | SegPlus | NotSpace | HexClass rune

text \<open>\<^verbatim>\<open>%x\<close>: the hexadecimal digits of a number, most significant first, no padding.\<close>

fun hex_digits :: "nat \<Rightarrow> nat list" where
  "hex_digits n = (if n < 16 then [n] else hex_digits (n div 16) @ [n mod 16])"

definition hex_char :: "nat \<Rightarrow> rune" where
  "hex_char d = (if d < 10 then 48 + d else 87 + d)"

fun tok_text :: "tok \<Rightarrow> rune list" where
  "tok_text Caret = str ''^''"
| "tok_text Dollar = str ''$''"
| "tok_text Bar = str ''|''"
| "tok_text Slash = str ''/''"
| "tok_text EitherSlash = [91, 47, 92, 92, 93]"
| "tok_text DotStar = str ''.*''"
| "tok_text SegPlus = str ''[^/]+''"
| "tok_text NotSpace = [92, 83]"
| "tok_text (HexClass r) = [91, 92, 120] @ map hex_char (hex_digits r) @ [93]"

definition regexp_source :: "tok list \<Rightarrow> rune list" where
  "regexp_source ts = concat (map tok_text ts)"

text \<open>
  Go's \<^verbatim>\<open>regexp\<close> package on these expressions. A character class is a set of runes;
  \<^verbatim>\<open>.\<close> excludes the newline, a negated class does not, \<^verbatim>\<open>\S\<close> excludes tab, newline,
  form feed, carriage return and space.
\<close>

datatype cls = Among "rune list" | AnyButNewline | AnyButSlash | NonSpace

fun cls_mem :: "cls \<Rightarrow> rune \<Rightarrow> bool" where
  "cls_mem (Among rs) c = (c \<in> set rs)"
| "cls_mem AnyButNewline c = (c \<noteq> 10)"
| "cls_mem AnyButSlash c = (c \<noteq> 47)"
| "cls_mem NonSpace c = (c \<noteq> 9 \<and> c \<noteq> 10 \<and> c \<noteq> 12 \<and> c \<noteq> 13 \<and> c \<noteq> 32)"

datatype atom = Bol | Eol | One cls | Star cls | Plus cls

text \<open>
  \<open>matches_here r b s\<close>: the concatenation \<open>r\<close> matches a prefix of the remaining text
  \<open>s\<close>; \<open>b\<close> says that \<open>s\<close> is the whole text (\<^verbatim>\<open>^\<close> holds only there, \<^verbatim>\<open>$\<close> only where
  nothing remains).
\<close>

fun matches_here :: "atom list \<Rightarrow> bool \<Rightarrow> rune list \<Rightarrow> bool" where
  "matches_here [] b s = True"
| "matches_here (Bol # r) b s = (b \<and> matches_here r b s)"
| "matches_here (Eol # r) b s = (s = [] \<and> matches_here r b s)"
| "matches_here (One c # r) b [] = False"
| "matches_here (One c # r) b (x # xs) = (cls_mem c x \<and> matches_here r False xs)"
| "matches_here (Star c # r) b [] = matches_here r b []"
| "matches_here (Star c # r) b (x # xs) =
     (matches_here r b (x # xs) \<or> (cls_mem c x \<and> matches_here (Star c # r) False xs))"
| "matches_here (Plus c # r) b [] = False"
| "matches_here (Plus c # r) b (x # xs) = (cls_mem c x \<and> matches_here (Star c # r) False xs)"

text \<open>\<^verbatim>\<open>MatchString\<close> searches: a match may start at any position of the text.\<close>

fun match_from :: "atom list \<Rightarrow> bool \<Rightarrow> rune list \<Rightarrow> bool" where
  "match_from r b [] = matches_here r b []"
| "match_from r b (x # xs) = (matches_here r b (x # xs) \<or> match_from r False xs)"

definition search :: "atom list list \<Rightarrow> rune list \<Rightarrow> bool" where
  "search alts s = list_ex (\<lambda>r. match_from r True s) alts"

text \<open>A compiled expression is known by what \<^verbatim>\<open>MatchString\<close> answers.\<close>

datatype regexp = Regexp (MatchString: "rune list \<Rightarrow> bool")

text \<open>
  The class \<^verbatim>\<open>[\x..]\<close> with the digits \<^verbatim>\<open>%x\<close> printed: the escape \<^verbatim>\<open>\x\<close> takes exactly two
  hexadecimal digits (one digit is a syntax error), and further digits are members of
  the class of their own.
\<close>

definition hex_class :: "rune \<Rightarrow> rune list option" where
  "hex_class r =
     (case hex_digits r of
        a # b # rest \<Rightarrow> Some ((16 * a + b) # map hex_char rest)
      | _ \<Rightarrow> None)"

fun atom_of :: "tok \<Rightarrow> atom option" where
  "atom_of Caret = Some Bol"
| "atom_of Dollar = Some Eol"
| "atom_of Bar = None"
| "atom_of Slash = Some (One (Among [47]))"
| "atom_of EitherSlash = Some (One (Among [47, 92]))"
| "atom_of DotStar = Some (Star AnyButNewline)"
| "atom_of SegPlus = Some (Plus AnyButSlash)"
| "atom_of NotSpace = Some (One NonSpace)"
| "atom_of (HexClass r) = map_option (\<lambda>rs. One (Among rs)) (hex_class r)"

text \<open>
  \<^verbatim>\<open>regexp.Compile\<close> on a buffer of pieces: \<^verbatim>\<open>|\<close> binds weakest, so the text is an
  alternation of concatenations.
\<close>

definition parse_alts :: "tok list \<Rightarrow> atom list list option" where
  "parse_alts ts = those (map (\<lambda>alt. those (map atom_of alt)) (split_on Bar ts))"

definition regexp_Compile :: "tok list \<Rightarrow> error + regexp" where
  "regexp_Compile ts =
     (case parse_alts ts of
        None \<Rightarrow> Inl RegexpError
      | Some alts \<Rightarrow> Inr (Regexp (search alts)))"

section \<open>Paths\<close>

text \<open>
  \<^verbatim>\<open>filepath.Clean\<close>, \<^verbatim>\<open>filepath.Join\<close> and \<^verbatim>\<open>filepath.Abs\<close> of Go's library on a system
  whose separator is the slash. \<open>clean_step\<close> handles one path element: empty and
  \<^verbatim>\<open>.\<close> elements vanish, \<^verbatim>\<open>..\<close> removes the element before it (at the root it vanishes,
  at the start of a relative path it stays).
\<close>

fun join_slash :: "rune list list \<Rightarrow> rune list" where
  "join_slash [] = []"
| "join_slash [c] = c"
| "join_slash (c # d # cs) = c @ [47] @ join_slash (d # cs)"

definition clean_step :: "bool \<Rightarrow> rune list list \<Rightarrow> rune list \<Rightarrow> rune list list" where
  "clean_step rooted out c =
     (if c = [] \<or> c = str ''.'' then out
      else if c = str ''..'' then
        (case out of
           lst # rest \<Rightarrow> if lst = str ''..'' \<and> \<not> rooted then c # out else rest
         | [] \<Rightarrow> if rooted then [] else [c])
      else c # out)"

definition Clean :: "rune list \<Rightarrow> rune list" where
  "Clean path =
     (if path = [] then str ''.''
      else
        let rooted = (hd path = 47);
            body = join_slash (rev (foldl (clean_step rooted) [] (split_on 47 path)))
        in if rooted then 47 # body else if body = [] then str ''.'' else body)"

text \<open>\<open>wd\<close> is what \<^verbatim>\<open>os.Getwd\<close> returns, \<open>None\<close> when it fails.\<close>

definition unixAbs :: "rune list option \<Rightarrow> rune list \<Rightarrow> rune list option" where
  "unixAbs wd path =
     (if path \<noteq> [] \<and> hd path = 47 then Some (Clean path)
      else case wd of
             None \<Rightarrow> None
           | Some w \<Rightarrow>
               Some (if w \<noteq> [] then Clean (w @ [47] @ path)
                     else if path \<noteq> [] then Clean path else []))"

text \<open>\<^verbatim>\<open>filepath.Dir\<close>: the path up to its last slash, cleaned.\<close>

definition unixDir :: "rune list \<Rightarrow> rune list" where
  "unixDir path = Clean (rev (dropWhile (\<lambda>c. c \<noteq> 47) (rev path)))"

text \<open>\<^verbatim>\<open>strings.ToUpper\<close> on the letters of ASCII.\<close>

definition upper_ascii :: "rune list \<Rightarrow> rune list" where
  "upper_ascii s = map (\<lambda>c. if 97 \<le> c \<and> c \<le> 122 then c - 32 else c) s"

text \<open>
  What the code takes from its host: the operating system, \<^verbatim>\<open>filepath.Abs\<close> (it reads
  the working directory), \<^verbatim>\<open>filepath.Dir\<close>, \<^verbatim>\<open>strings.ToUpper\<close>, and \<^verbatim>\<open>regexp.Compile\<close> on
  the text of a raw expression, which is not modelled here.
\<close>

record env =
  windows :: bool
  Abs :: "rune list \<Rightarrow> rune list option"
  Dir :: "rune list \<Rightarrow> rune list"
  ToUpper :: "rune list \<Rightarrow> rune list"
  rawCompile :: "rune list \<Rightarrow> error + regexp"

definition ToSlash :: "env \<Rightarrow> rune list \<Rightarrow> rune list" where
  "ToSlash e p = (if windows e then map (\<lambda>c. if c = 92 then 47 else c) p else p)"

definition unix_env :: "rune list \<Rightarrow> env" where
  "unix_env wd =
     \<lparr> windows = False, Abs = unixAbs (Some wd), Dir = unixDir, ToUpper = upper_ascii,
       rawCompile = (\<lambda>_. Inl RegexpError) \<rparr>"

section \<open>compilePattern\<close>

text \<open>
  \<^verbatim>\<open>i < len(rs)-1 && rs[i+1] == c\<close>: the read happens only when the comparison holds;
  \<open>None\<close> is a read out of range.
\<close>

definition peek_is :: "rune list \<Rightarrow> nat \<Rightarrow> rune \<Rightarrow> bool option" where
  "peek_is rs i c =
     (if int i < int (length rs) - 1
      then (case rd rs (i + 1) of None \<Rightarrow> None | Some d \<Rightarrow> Some (d = c))
      else Some False)"

text \<open>The loop over the runes of one alternative (lines 98 to 122), \<open>i\<close> its index.\<close>

function glob_loop ::
  "bool \<Rightarrow> rune list \<Rightarrow> rune list \<Rightarrow> nat \<Rightarrow> tok list \<Rightarrow> (error + tok list) outcome" where
  "glob_loop win pattern rs i buf =
     (if \<not> i < length rs then Return (Inr buf)
      else case rd rs i of
        None \<Rightarrow> Panic
      | Some c \<Rightarrow>
          if c = rn CHR ''/'' then
            glob_loop win pattern rs (i + 1) (buf @ [if win then EitherSlash else Slash])
          else if c = rn CHR ''*'' then
            (case peek_is rs i (rn CHR ''*'') of
               None \<Rightarrow> Panic
             | Some True \<Rightarrow>
                 (case peek_is rs (i + 1) (rn CHR ''/'') of
                    None \<Rightarrow> Panic
                  | Some True \<Rightarrow> glob_loop win pattern rs (i + 3) (buf @ [DotStar])
                  | Some False \<Rightarrow> Return (Inl (InvalidWildcard pattern)))
             | Some False \<Rightarrow> glob_loop win pattern rs (i + 1) (buf @ [SegPlus]))
          else if c = rn CHR ''?'' then
            glob_loop win pattern rs (i + 1) (buf @ [NotSpace])
          else
            glob_loop win pattern rs (i + 1) (buf @ [HexClass c]))"
  by pat_completeness auto
termination
  by (relation "measure (\<lambda>(win, pattern, rs, i, buf). length rs - i)") auto

declare glob_loop.simps [simp del]

text \<open>Lines 94 to 96: the alternative made absolute, unchanged when that fails.\<close>

definition resolved :: "env \<Rightarrow> rune list \<Rightarrow> rune list" where
  "resolved e pat = (case Abs e pat of Some fs \<Rightarrow> ToSlash e fs | None \<Rightarrow> pat)"

text \<open>The loop over the alternatives (lines 88 to 124), \<open>n\<close> the index of the alternative.\<close>

fun alt_loop ::
  "env \<Rightarrow> rune list \<Rightarrow> nat \<Rightarrow> rune list list \<Rightarrow> tok list \<Rightarrow> (error + tok list) outcome" where
  "alt_loop e pattern n [] buf = Return (Inr buf)"
| "alt_loop e pattern n (pat # pats) buf =
     (let buf1 = buf @ (if n = 0 then [Caret] else [Dollar, Bar]);
          pat1 = resolved e pat
      in case glob_loop (windows e) pattern pat1 0 buf1 of
           Panic \<Rightarrow> Panic
         | Return (Inl err) \<Rightarrow> Return (Inl err)
         | Return (Inr buf2) \<Rightarrow> alt_loop e pattern (Suc n) pats (buf2 @ [Dollar]))"

definition compilePattern :: "env \<Rightarrow> rune list \<Rightarrow> (error + regexp) outcome" where
  "compilePattern e pattern =
     (case rd pattern 0 of
        None \<Rightarrow> Panic
      | Some c \<Rightarrow>
          if c = rn CHR ''%'' then Return (rawCompile e (drop 1 pattern))
          else
            (case alt_loop e pattern 0 (split_on (rn CHR ''|'') pattern) [] of
               Panic \<Rightarrow> Panic
             | Return (Inl err) \<Rightarrow> Return (Inl err)
             | Return (Inr buf) \<Rightarrow> Return (regexp_Compile buf)))"

text \<open>
  The same loop as a function of the runes that remain: the pieces written for them, or
  \<open>None\<close> where the loop returns its error. \<open>glob_loop_eq\<close> below proves the two equal.
\<close>

fun glob_toks :: "bool \<Rightarrow> rune list \<Rightarrow> tok list option" where
  "glob_toks win [] = Some []"
| "glob_toks win (c # rest) =
     (if c = rn CHR ''/'' then
        map_option ((#) (if win then EitherSlash else Slash)) (glob_toks win rest)
      else if c = rn CHR ''*'' then
        (case rest of
           [] \<Rightarrow> map_option ((#) SegPlus) (glob_toks win rest)
         | d # rest1 \<Rightarrow>
             if d = rn CHR ''*'' then
               (case rest1 of
                  [] \<Rightarrow> None
                | f # rest2 \<Rightarrow>
                    if f = rn CHR ''/'' then map_option ((#) DotStar) (glob_toks win rest2)
                    else None)
             else map_option ((#) SegPlus) (glob_toks win rest))
      else if c = rn CHR ''?'' then map_option ((#) NotSpace) (glob_toks win rest)
      else map_option ((#) (HexClass c)) (glob_toks win rest))"

text \<open>A text contains \<^verbatim>\<open>**\<close> not immediately followed by \<^verbatim>\<open>/\<close>.\<close>

fun bad_stars :: "rune list \<Rightarrow> bool" where
  "bad_stars (a # b # r) =
     ((a = rn CHR ''*'' \<and> b = rn CHR ''*'' \<and> (case r of [] \<Rightarrow> True | c # _ \<Rightarrow> c \<noteq> rn CHR ''/''))
      \<or> bad_stars (b # r))"
| "bad_stars [a] = False"
| "bad_stars [] = False"




text \<open>What a call of \<^verbatim>\<open>compilePattern\<close> gave: a matcher, and what that matcher accepts.\<close>

fun compiled :: "(error + regexp) outcome \<Rightarrow> bool" where
  "compiled (Return (Inr re)) = True"
| "compiled (Return (Inl err)) = False"
| "compiled Panic = False"

fun accepts :: "(error + regexp) outcome \<Rightarrow> rune list \<Rightarrow> bool" where
  "accepts (Return (Inr re)) s = MatchString re s"
| "accepts (Return (Inl err)) s = False"
| "accepts Panic s = False"

section \<open>Rules\<close>

text \<open>The bits of \<^verbatim>\<open>fsnotify.Op\<close>, a \<^verbatim>\<open>uint32\<close>.\<close>

definition Create :: "32 word" where "Create = 1"
definition Write :: "32 word" where "Write = 2"
definition Remove :: "32 word" where "Remove = 4"
definition Rename :: "32 word" where "Rename = 8"
definition Chmod :: "32 word" where "Chmod = 16"

record task =
  Match :: "rune list"
  Ignore :: "rune list"
  Commands :: "rune list list"
  Ops :: "rune list list"
  mre :: "regexp option"
  ire :: "regexp option"
  mops :: "32 word"
  hit :: bool

definition match :: "task \<Rightarrow> rune list \<Rightarrow> bool" where
  "match t file =
     ((case mre t of None \<Rightarrow> False | Some re \<Rightarrow> MatchString re file) \<and>
      (case ire t of None \<Rightarrow> True | Some re \<Rightarrow> \<not> MatchString re file))"

definition matchOp :: "task \<Rightarrow> 32 word \<Rightarrow> bool" where
  "matchOp t op = (if mops t = 0 then True else op AND mops t = op)"

text \<open>A rule as the configuration file gives it, nothing compiled yet.\<close>

definition new_task :: "rune list \<Rightarrow> rune list \<Rightarrow> rune list list \<Rightarrow> rune list list \<Rightarrow> task" where
  "new_task m i cs os =
     \<lparr> Match = m, Ignore = i, Commands = cs, Ops = os,
       mre = None, ire = None, mops = 0, hit = False \<rparr>"

section \<open>Loading the rules\<close>

datatype logmsg = LogError error | LogUnknownOp "rune list"

text \<open>Lines 298 to 313: one name of an operation, and the loop over the names.\<close>

definition op_bit :: "env \<Rightarrow> rune list \<Rightarrow> 32 word option" where
  "op_bit e op =
     (let u = ToUpper e op in
      if u = str ''CREATE'' then Some Create
      else if u = str ''WRITE'' then Some Write
      else if u = str ''REMOVE'' then Some Remove
      else if u = str ''RENAME'' then Some Rename
      else if u = str ''CHMOD'' then Some Chmod
      else None)"

text \<open>The mask after one name.\<close>

definition op_add :: "env \<Rightarrow> 32 word \<Rightarrow> rune list \<Rightarrow> 32 word" where
  "op_add e m op = (case op_bit e op of Some b \<Rightarrow> m OR b | None \<Rightarrow> m)"

fun ops_loop :: "env \<Rightarrow> rune list list \<Rightarrow> task \<Rightarrow> logmsg list \<Rightarrow> task \<times> logmsg list" where
  "ops_loop e [] t lg = (t, lg)"
| "ops_loop e (op # ops) t lg =
     (case op_bit e op of
        Some b \<Rightarrow> ops_loop e ops (t\<lparr>mops := mops t OR b\<rparr>) lg
      | None \<Rightarrow> ops_loop e ops t (lg @ [LogUnknownOp op]))"

text \<open>Lines 282 to 313: the body of the loop of \<^verbatim>\<open>load\<close> for one rule, with what it logs.\<close>

definition load_task :: "env \<Rightarrow> task \<Rightarrow> (task \<times> logmsg list) outcome" where
  "load_task e t =
     (if Match t = [] then Return (t, [])
      else case compilePattern e (Match t) of
        Panic \<Rightarrow> Panic
      | Return (Inl err) \<Rightarrow> Return (t\<lparr>mre := None\<rparr>, [LogError err])
      | Return (Inr re) \<Rightarrow>
          (let t1 = t\<lparr>mre := Some re\<rparr> in
           if Ignore t \<noteq> [] then
             (case compilePattern e (Ignore t) of
                Panic \<Rightarrow> Panic
              | Return (Inl err) \<Rightarrow>
                  Return (ops_loop e (Ops t) (t1\<lparr>ire := None\<rparr>) [LogError err])
              | Return (Inr re2) \<Rightarrow>
                  Return (ops_loop e (Ops t) (t1\<lparr>ire := Some re2\<rparr>) []))
           else Return (ops_loop e (Ops t) (t1\<lparr>ire := None\<rparr>) [])))"

fun load_loop :: "env \<Rightarrow> task list \<Rightarrow> (task list \<times> logmsg list) outcome" where
  "load_loop e [] = Return ([], [])"
| "load_loop e (t # ts) =
     (case load_task e t of
        Panic \<Rightarrow> Panic
      | Return (t1, lg1) \<Rightarrow>
          (case load_loop e ts of
             Panic \<Rightarrow> Panic
           | Return (ts1, lg2) \<Rightarrow> Return (t1 # ts1, lg1 @ lg2)))"

text \<open>The rules of the configuration after \<^verbatim>\<open>load\<close>.\<close>

fun rules_of :: "(task list \<times> logmsg list) outcome \<Rightarrow> task list" where
  "rules_of (Return (ts, lg)) = ts"
| "rules_of Panic = []"

section \<open>The watch set\<close>

text \<open>
  \<^verbatim>\<open>filepath.Walk\<close> calls the function of lines 212 to 230 on one entry after the other:
  its path, whether there is a \<^verbatim>\<open>FileInfo\<close> and for a directory, and whether the error
  handed in is not \<^verbatim>\<open>nil\<close>. It stops when the function returns an error.
\<close>

datatype info = NoInfo | IsDir | IsFile

record wstate =
  dup :: "rune list \<rightharpoonup> bool"
  added :: "rune list list"

text \<open>Lines 221 to 227: the first rule that matches adds the directory.\<close>

fun tasks_loop :: "task list \<Rightarrow> rune list \<Rightarrow> rune list \<Rightarrow> wstate \<Rightarrow> wstate" where
  "tasks_loop [] path dir st = st"
| "tasks_loop (t # ts) path dir st =
     (if match t path then st\<lparr>added := added st @ [dir], dup := (dup st)(dir \<mapsto> True)\<rparr>
      else tasks_loop ts path dir st)"

definition walkFn ::
  "env \<Rightarrow> task list \<Rightarrow> rune list \<times> info \<times> bool \<Rightarrow> wstate \<Rightarrow> wstate \<times> bool" where
  "walkFn e tasks en st =
     (case en of (path, fi, err) \<Rightarrow>
        (case fi of
           NoInfo \<Rightarrow> (st, err)
         | IsDir \<Rightarrow> (st, False)
         | IsFile \<Rightarrow>
             (let dir = Dir e path in
              if dup st dir = None then (tasks_loop tasks path dir st, False)
              else (st, False))))"

fun walk ::
  "env \<Rightarrow> task list \<Rightarrow> (rune list \<times> info \<times> bool) list \<Rightarrow> wstate \<Rightarrow> wstate \<times> bool" where
  "walk e tasks [] st = (st, False)"
| "walk e tasks (en # ens) st =
     (case walkFn e tasks en st of
        (st1, True) \<Rightarrow> (st1, True)
      | (st1, False) \<Rightarrow> walk e tasks ens st1)"

text \<open>Lines 201 to 210: the configuration file and the root are watched before the walk.\<close>

definition watch_init :: "rune list \<Rightarrow> rune list \<Rightarrow> wstate" where
  "watch_init file root = \<lparr> dup = [root \<mapsto> True], added = [file, root] \<rparr>"

section \<open>The command pipeline\<close>










section \<open>Dispatcher, pipelines and supervisor together\<close>

text \<open>
  The goroutines of the program as one transition system. The rule objects ever
  allocated are kept in \<open>rules\<close>, never removed; \<open>conf\<close> lists those of the current
  configuration. A pipeline is at one of the points of lines 172 to 190: before the
  increment, before a command (with the commands that remain), before clearing the
  flag, before the decrement, or finished.
\<close>

record event =
  Name :: "rune list"
  Op :: "32 word"

datatype ppc = PInc | PRun "rune list list" | PClear | PDec | PDone

record proc =
  prule :: nat
  pc :: ppc

text \<open>
  The supervisor of lines 354 to 380: absent (no command line), about to read the
  counter, asleep, with the restart launched, with the managed process running, or
  exited on a signal.
\<close>

datatype sup_pc = SupOff | SupPoll | SupSleep | SupRestart | SupRunning | SupExit

record sys =
  counter :: "64 word"
  rules :: "task list"
  conf :: "nat list"
  procs :: "proc list"
  supervisor :: sup_pc
  seen :: "64 word"
  spawned :: nat

text \<open>Lines 149 to 162: the tests an event passes before the flag of a rule is looked at.\<close>

definition selects :: "env \<Rightarrow> task \<Rightarrow> event \<Rightarrow> bool" where
  "selects e t evt =
     (let file = ToSlash e (Name evt) in
      (if Name evt \<noteq> [] \<and> hd (Name evt) = rn CHR '':'' then Match t = file else match t file)
      \<and> matchOp t (Op evt))"

text \<open>
  The steps. \<open>Dispatch evt i\<close>: the dispatcher handles \<open>evt\<close> for the rule \<open>i\<close> of the
  configuration (lines 151 to 171; the test and the setting of the flag are under the
  mutex of the rule). \<open>Proc k ok\<close>: the pipeline \<open>k\<close> takes its next step, \<open>ok\<close> the result
  of the command if it runs one. \<open>SupStep\<close>: the supervisor takes its next step; \<open>seen\<close> is
  the value its last read of the counter returned. \<open>Signal\<close>: an interrupt arrives while
  the supervisor waits in \<^verbatim>\<open>select\<close>. \<open>Reload ts\<close>: \<^verbatim>\<open>load\<close> replaces the configuration by
  new rule objects.
\<close>

datatype action = Dispatch event nat | Proc nat bool | SupStep | Signal | Reload "task list"

definition proc_step :: "sys \<Rightarrow> nat \<Rightarrow> bool \<Rightarrow> sys option" where
  "proc_step s k ok =
     (if \<not> k < length (procs s) then None
      else
        let p = procs s ! k; i = prule p in
        case pc p of
          PInc \<Rightarrow>
            Some (s\<lparr>counter := counter s + 1,
                    procs := (procs s)[k := p\<lparr>pc := PRun (Commands (rules s ! i))\<rparr>]\<rparr>)
        | PRun [] \<Rightarrow> Some (s\<lparr>procs := (procs s)[k := p\<lparr>pc := PClear\<rparr>]\<rparr>)
        | PRun (c # cs) \<Rightarrow>
            Some (s\<lparr>procs := (procs s)[k := p\<lparr>pc := (if ok then PRun cs else PClear)\<rparr>]\<rparr>)
        | PClear \<Rightarrow>
            Some (s\<lparr>rules := (rules s)[i := (rules s ! i)\<lparr>hit := False\<rparr>],
                    procs := (procs s)[k := p\<lparr>pc := PDec\<rparr>]\<rparr>)
        | PDec \<Rightarrow>
            Some (s\<lparr>counter := counter s + NOT 0,
                    procs := (procs s)[k := p\<lparr>pc := PDone\<rparr>]\<rparr>)
        | PDone \<Rightarrow> None)"

definition sup_step :: "sys \<Rightarrow> sys option" where
  "sup_step s =
     (case supervisor s of
        SupPoll \<Rightarrow>
          Some (s\<lparr>seen := counter s, supervisor := (if counter s > 0 then SupSleep else SupRestart)\<rparr>)
      | SupSleep \<Rightarrow> Some (s\<lparr>supervisor := SupPoll\<rparr>)
      | SupRestart \<Rightarrow> Some (s\<lparr>spawned := Suc (spawned s), supervisor := SupRunning\<rparr>)
      | SupRunning \<Rightarrow> Some (s\<lparr>supervisor := SupPoll\<rparr>)
      | SupOff \<Rightarrow> None
      | SupExit \<Rightarrow> None)"

definition step :: "env \<Rightarrow> sys \<Rightarrow> action \<Rightarrow> sys option" where
  "step e s a =
     (case a of
        Dispatch evt i \<Rightarrow>
          if i \<in> set (conf s) \<and> i < length (rules s) then
            (if selects e (rules s ! i) evt \<and> \<not> hit (rules s ! i) then
               Some (s\<lparr>rules := (rules s)[i := (rules s ! i)\<lparr>hit := True\<rparr>],
                       procs := procs s @ [\<lparr>prule = i, pc = PInc\<rparr>]\<rparr>)
             else Some s)
          else None
      | Proc k ok \<Rightarrow> proc_step s k ok
      | SupStep \<Rightarrow> sup_step s
      | Signal \<Rightarrow>
          if supervisor s = SupRestart \<or> supervisor s = SupRunning then Some (s\<lparr>supervisor := SupExit\<rparr>) else None
      | Reload ts \<Rightarrow>
          Some (s\<lparr>rules := rules s @ map (\<lambda>t. t\<lparr>hit := False\<rparr>) ts,
                  conf := [length (rules s) ..< length (rules s) + length ts]\<rparr>))"

fun exec :: "env \<Rightarrow> sys \<Rightarrow> action list \<Rightarrow> sys option" where
  "exec e s [] = Some s"
| "exec e s (a # as) = (case step e s a of None \<Rightarrow> None | Some s1 \<Rightarrow> exec e s1 as)"

text \<open>The start: the rules as loaded, no pipeline, the supervisor there when a command line is.\<close>

definition init_sys :: "task list \<Rightarrow> bool \<Rightarrow> sys" where
  "init_sys ts managed =
     \<lparr> counter = 0, rules = map (\<lambda>t. t\<lparr>hit := False\<rparr>) ts, conf = [0 ..< length ts],
       procs = [], supervisor = (if managed then SupPoll else SupOff), seen = 0, spawned = 0 \<rparr>"

text \<open>A pipeline runs from its admission until it has cleared the flag of its rule.\<close>

fun running :: "ppc \<Rightarrow> bool" where
  "running PInc = True"
| "running (PRun cs) = True"
| "running PClear = True"
| "running PDec = False"
| "running PDone = False"

definition pipelines_of :: "sys \<Rightarrow> nat \<Rightarrow> nat" where
  "pipelines_of s i = length (filter (\<lambda>p. prule p = i \<and> running (pc p)) (procs s))"

text \<open>
  What holds in every state that is reached: a rule has one running pipeline when its
  flag is set and none otherwise, and pipelines and configuration refer to rules that
  exist.
\<close>

definition flight_inv :: "sys \<Rightarrow> bool" where
  "flight_inv s =
     ((\<forall>i < length (rules s). pipelines_of s i = (if hit (rules s ! i) then 1 else 0)) \<and>
      (\<forall>p \<in> set (procs s). prule p < length (rules s)) \<and>
      (\<forall>i \<in> set (conf s). i < length (rules s)))"


text \<open>
  A small configuration for the examples below: the working directory \<^verbatim>\<open>/w\<close>, one
  rule for \<^verbatim>\<open>*.txt\<close> with one command, a write to \<^verbatim>\<open>/w/a.txt\<close>, and commands that fail.
\<close>

definition demo_env :: env where
  "demo_env = unix_env (str ''/w'')"

definition demo_rules :: "task list" where
  "demo_rules = rules_of (load_loop demo_env [new_task (str ''*.txt'') [] [str ''make''] []])"

definition demo_event :: event where
  "demo_event = \<lparr> Name = str ''/w/a.txt'', Op = Write \<rparr>"


section \<open>Operation masks\<close>

lemma and_eq_iff_bits:
  "(op AND m = op) = (\<forall>n. bit (op::32 word) n \<longrightarrow> bit m n)"
proof
  assume h: "op AND m = op"
  show "\<forall>n. bit op n \<longrightarrow> bit m n"
  proof (intro allI impI)
    fix n assume "bit op n"
    then have "bit (op AND m) n" using h by simp
    then show "bit m n" by (simp add: bit_and_iff)
  qed
next
  assume "\<forall>n. bit op n \<longrightarrow> bit m n"
  then show "op AND m = op" by (auto simp: bit_eq_iff bit_and_iff)
qed

text \<open>
  C3, counterexample. A rule whose mask is \<open>{Write}\<close> does not match an event that carries
  \<open>{Write, Chmod}\<close>: the event's bits are not all in the mask.
\<close>

theorem matchOp_write_chmod_rejected:
  "matchOp ((new_task [] [] [] [])\<lparr>mops := Write\<rparr>) (Write OR Chmod) = False"
  by (simp add: matchOp_def Write_def Chmod_def)

text \<open>
  C3, as amended. With an empty mask \<open>matchOp\<close> accepts every event. With a non-empty mask
  it accepts exactly the events all of whose bits are in the mask, the event without
  any bit among them; so the mask \<open>{Write}\<close> accepts \<open>{Write}\<close> and rejects both
  \<open>{Write, Chmod}\<close> and \<open>{Chmod}\<close>.
\<close>

theorem matchOp_subset:
  "(mops t = 0 \<longrightarrow> matchOp t op) \<and>
   (mops t \<noteq> 0 \<longrightarrow> matchOp t op = (\<forall>n. bit op n \<longrightarrow> bit (mops t) n)) \<and>
   (mops t = Write \<longrightarrow>
      matchOp t Write \<and> \<not> matchOp t (Write OR Chmod) \<and> \<not> matchOp t Chmod \<and> matchOp t 0)"
proof (intro conjI impI)
  assume "mops t = 0"
  then show "matchOp t op" by (simp add: matchOp_def)
next
  assume "mops t \<noteq> 0"
  then show "matchOp t op = (\<forall>n. bit op n \<longrightarrow> bit (mops t) n)"
    by (simp add: matchOp_def and_eq_iff_bits)
next
  assume "mops t = Write"
  then show "matchOp t Write" by (simp add: matchOp_def Write_def)
next
  assume "mops t = Write"
  then show "\<not> matchOp t (Write OR Chmod)" by (simp add: matchOp_def Write_def Chmod_def)
next
  assume "mops t = Write"
  then show "\<not> matchOp t Chmod" by (simp add: matchOp_def Write_def Chmod_def)
next
  assume "mops t = Write"
  then show "matchOp t 0" by (simp add: matchOp_def Write_def)
qed

theorem matchOp_subset_witness:
  "mops ((new_task [] [] [] [])\<lparr>mops := Write\<rparr>) = Write \<and>
   mops ((new_task [] [] [] [])\<lparr>mops := Write\<rparr>) \<noteq> 0 \<and>
   matchOp ((new_task [] [] [] [])\<lparr>mops := Write\<rparr>) Write \<and>
   \<not> matchOp ((new_task [] [] [] [])\<lparr>mops := Write\<rparr>) (Write OR Chmod) \<and>
   \<not> matchOp ((new_task [] [] [] [])\<lparr>mops := Write\<rparr>) Chmod \<and>
   mops (new_task [] [] [] []) = 0 \<and>
   matchOp (new_task [] [] [] []) Chmod"
  using matchOp_subset [of "(new_task [] [] [] [])\<lparr>mops := Write\<rparr>" Chmod]
    matchOp_subset [of "new_task [] [] [] []" Chmod]
  by (simp add: matchOp_def Write_def Chmod_def new_task_def)

section \<open>The pattern compiler\<close>

lemma peek_is_Some:
  "peek_is rs i c = Some (Suc i < length rs \<and> rs ! Suc i = c)"
  by (auto simp: peek_is_def rd_def)

lemma drop_unfold: "i < length rs \<Longrightarrow> drop i rs = rs ! i # drop (Suc i) rs"
  by (simp add: Cons_nth_drop_Suc)

lemma glob_toks_star1:
  "rest = [] \<or> hd rest \<noteq> 42 \<Longrightarrow>
   glob_toks win (42 # rest) = map_option ((#) SegPlus) (glob_toks win rest)"
  by (cases rest) auto

lemma glob_loop_eq:
  "i \<le> length rs \<Longrightarrow>
   glob_loop win pattern rs i buf =
     (case glob_toks win (drop i rs) of
        None \<Rightarrow> Return (Inl (InvalidWildcard pattern))
      | Some ts \<Rightarrow> Return (Inr (buf @ ts)))"
proof (induction win pattern rs i buf rule: glob_loop.induct)
  case (1 win pattern rs i buf)
  note step = glob_loop.simps [of win pattern rs i buf]
  show ?case
  proof (cases "i < length rs")
    case False
    then show ?thesis unfolding step by simp
  next
    case True
    note d0 = drop_unfold [OF True]
    have r: "rd rs i = Some (rs ! i)" using True by (simp add: rd_def)
    have nn: "\<not> \<not> i < length rs" using True by simp
    have le: "i + 1 \<le> length rs" using True by simp
    consider (slash) "rs ! i = 47"
      | (star1) "rs ! i = 42" "\<not> (Suc i < length rs \<and> rs ! Suc i = 42)"
      | (star2) "rs ! i = 42" "Suc i < length rs" "rs ! Suc i = 42"
          "Suc (Suc i) < length rs" "rs ! Suc (Suc i) = 47"
      | (bad) "rs ! i = 42" "Suc i < length rs" "rs ! Suc i = 42"
          "\<not> (Suc (Suc i) < length rs \<and> rs ! Suc (Suc i) = 47)"
      | (quest) "rs ! i = 63"
      | (other) "rs ! i \<noteq> 47" "rs ! i \<noteq> 42" "rs ! i \<noteq> 63"
      by blast
    then show ?thesis
    proof cases
      case slash
      have c: "rs ! i = rn CHR ''/''" using slash by simp
      note ih = "1.IH"(1) [OF nn r c le]
      show ?thesis
        unfolding step using True slash ih
        by (simp add: r d0 split: option.splits)
    next
      case star1
      have c1: "rs ! i \<noteq> rn CHR ''/''" and c2: "rs ! i = rn CHR ''*''" using star1 by simp_all
      have p: "peek_is rs i (rn CHR ''*'') = Some False"
        using star1 by (simp add: peek_is_Some)
      note ih = "1.IH"(3) [OF nn r c1 c2 p refl le]
      have "drop (Suc i) rs = [] \<or> hd (drop (Suc i) rs) \<noteq> 42"
        using star1 by (cases "Suc i < length rs") (simp_all add: hd_drop_conv_nth)
      then have g: "glob_toks win (drop i rs) = map_option ((#) SegPlus) (glob_toks win (drop (Suc i) rs))"
        unfolding d0 star1(1) by (rule glob_toks_star1)
      show ?thesis
        unfolding step using True star1(1) ih p
        by (simp add: r g split: option.splits)
    next
      case star2
      have c1: "rs ! i \<noteq> rn CHR ''/''" and c2: "rs ! i = rn CHR ''*''" using star2 by simp_all
      have p: "peek_is rs i (rn CHR ''*'') = Some True"
        using star2 by (simp add: peek_is_Some)
      have q: "peek_is rs (i + 1) (rn CHR ''/'') = Some True"
        using star2 by (simp add: peek_is_Some)
      have le3: "i + 3 \<le> length rs" using star2 by simp
      note ih = "1.IH"(2) [OF nn r c1 c2 p refl q refl le3]
      have d1: "drop (Suc i) rs = 42 # 47 # drop (i + 3) rs"
        using star2 by (simp add: drop_unfold numeral_3_eq_3)
      have g: "glob_toks win (drop i rs) = map_option ((#) DotStar) (glob_toks win (drop (i + 3) rs))"
        using star2 by (simp add: d0 d1)
      show ?thesis
        unfolding step using True star2(1) ih p q
        by (simp add: r g split: option.splits)
    next
      case bad
      have p: "peek_is rs i (rn CHR ''*'') = Some True"
        using bad by (simp add: peek_is_Some)
      have q: "peek_is rs (i + 1) (rn CHR ''/'') = Some False"
        using bad by (simp add: peek_is_Some)
      have "drop (Suc i) rs = [42] \<or> (\<exists>c t. c \<noteq> 47 \<and> drop (Suc i) rs = 42 # c # t)"
        using bad by (cases "Suc (Suc i) < length rs") (auto simp: drop_unfold)
      then have g: "glob_toks win (drop i rs) = None"
        using bad(1) by (auto simp: d0)
      show ?thesis
        unfolding step using True bad(1) p q
        by (simp add: r g)
    next
      case quest
      have c1: "rs ! i \<noteq> rn CHR ''/''" and c2: "rs ! i \<noteq> rn CHR ''*''" 
        and c3: "rs ! i = rn CHR ''?''" using quest by simp_all
      note ih = "1.IH"(4) [OF nn r c1 c2 c3 le]
      show ?thesis
        unfolding step using True quest ih
        by (simp add: r d0 split: option.splits)
    next
      case other
      have c1: "rs ! i \<noteq> rn CHR ''/''" and c2: "rs ! i \<noteq> rn CHR ''*''" 
        and c3: "rs ! i \<noteq> rn CHR ''?''" using other by simp_all
      note ih = "1.IH"(5) [OF nn r c1 c2 c3 le]
      show ?thesis
        unfolding step using True other ih
        by (simp add: r d0 split: option.splits)
    qed
  qed
qed

lemmas eval_defs =
  compilePattern_def rd_def unix_env_def unixAbs_def Clean_def clean_step_def ToSlash_def
  resolved_def glob_loop_eq regexp_Compile_def parse_alts_def search_def hex_class_def
  hex_char_def

lemma bad_stars_skip: "a \<noteq> 42 \<Longrightarrow> bad_stars (a # xs) = bad_stars xs"
  by (cases xs) auto

lemma glob_toks_None_iff: "(glob_toks win rs = None) = bad_stars rs"
proof (induction win rs rule: glob_toks.induct)
  case (1 win)
  show ?case by simp
next
  case (2 win c rest)
  show ?case
  proof (cases rest)
    case Nil
    then show ?thesis by simp
  next
    case (Cons d rest1)
    note r = Cons
    show ?thesis
    proof (cases rest1)
      case Nil
      with r "2.IH" show ?thesis by auto
    next
      case (Cons f rest2)
      with r "2.IH" show ?thesis by (auto simp: bad_stars_skip)
    qed
  qed
qed

lemma alt_loop_no_panic: "alt_loop e pattern n pats buf \<noteq> Panic"
proof (induction pats arbitrary: n buf)
  case Nil
  show ?case by simp
next
  case (Cons pat pats)
  show ?case
    by (simp add: glob_loop_eq Let_def Cons.IH split: option.splits)
qed

lemma alt_loop_error:
  "alt_loop e pattern n pats buf = Return (Inl err) \<Longrightarrow> err = InvalidWildcard pattern"
proof (induction pats arbitrary: n buf)
  case Nil
  then show ?case by simp
next
  case (Cons pat pats)
  then show ?case
    by (auto simp: glob_loop_eq Let_def split: option.splits)
qed

lemma alt_loop_error_iff:
  "(alt_loop e pattern n pats buf = Return (Inl (InvalidWildcard pattern))) =
   (\<exists>alt \<in> set pats. bad_stars (resolved e alt))"
proof (induction pats arbitrary: n buf)
  case Nil
  show ?case by simp
next
  case (Cons pat pats)
  show ?case
  proof (cases "glob_toks (windows e) (resolved e pat)")
    case None
    then have "bad_stars (resolved e pat)"
      using glob_toks_None_iff [of "windows e" "resolved e pat"] by simp
    with None show ?thesis
      by (simp add: glob_loop_eq Let_def)
  next
    case (Some ts)
    then have "\<not> bad_stars (resolved e pat)"
      using glob_toks_None_iff [of "windows e" "resolved e pat"] by simp
    with Some show ?thesis
      by (simp add: glob_loop_eq Let_def Cons.IH)
  qed
qed

text \<open>
  C9, counterexample. On the empty source the first statement reads \<^verbatim>\<open>pattern[0]\<close>, out
  of range: the call panics.
\<close>

theorem compilePattern_empty_panics:
  "compilePattern (unix_env (str ''/w'')) [] = Panic"
  by (simp add: compilePattern_def rd_def)

text \<open>
  C9, as amended. On every source that is not empty \<^verbatim>\<open>compilePattern\<close> returns, a matcher
  or an error, and never reads out of range; on the empty source it panics. (\<^verbatim>\<open>load\<close>
  calls it on sources that are not empty only.)
\<close>

theorem compilePattern_total:
  "(pattern \<noteq> [] \<longrightarrow>
      (\<exists>re. compilePattern e pattern = Return (Inr re)) \<or>
      (\<exists>err. compilePattern e pattern = Return (Inl err))) \<and>
   compilePattern e [] = Panic"
proof (intro conjI impI)
  assume ne: "pattern \<noteq> []"
  then have r: "rd pattern 0 = Some (hd pattern)"
    by (cases pattern) (simp_all add: rd_def)
  show "(\<exists>re. compilePattern e pattern = Return (Inr re)) \<or>
        (\<exists>err. compilePattern e pattern = Return (Inl err))"
  proof (cases "hd pattern = rn CHR ''%''")
    case True
    then show ?thesis
      by (cases "rawCompile e (drop 1 pattern)") (simp_all add: compilePattern_def r)
  next
    case False
    let ?a = "alt_loop e pattern 0 (split_on (rn CHR ''|'') pattern) []"
    show ?thesis
    proof (cases ?a)
      case Panic
      then show ?thesis by (simp add: alt_loop_no_panic)
    next
      case (Return x)
      show ?thesis
      proof (cases x)
        case (Inl err)
        with Return False show ?thesis by (simp add: compilePattern_def r)
      next
        case (Inr buf)
        with Return False show ?thesis
          by (cases "regexp_Compile buf") (simp_all add: compilePattern_def r)
      qed
    qed
  qed
next
  show "compilePattern e [] = Panic" by (simp add: compilePattern_def rd_def)
qed

theorem compilePattern_total_witness:
  "str ''a'' \<noteq> [] \<and>
   ((\<exists>re. compilePattern (unix_env (str ''/w'')) (str ''a'') = Return (Inr re)) \<or>
    (\<exists>err. compilePattern (unix_env (str ''/w'')) (str ''a'') = Return (Inl err)))"
  using compilePattern_total [of "str ''a''" "unix_env (str ''/w'')"] by simp

text \<open>
  C8, counterexample. The source \<^verbatim>\<open>**x/..\<close> contains \<^verbatim>\<open>**\<close> not followed by \<^verbatim>\<open>/\<close> and
  compiles: making it absolute removes the element \<^verbatim>\<open>**x\<close> with the \<^verbatim>\<open>..\<close> after it.
  The source \<^verbatim>\<open>**/\<close> itself is rejected: making it absolute removes the slash at its end.
\<close>

theorem compilePattern_wildcard_after_resolution:
  "bad_stars (str ''**x/..'') \<and>
   compiled (compilePattern (unix_env (str ''/w'')) (str ''**x/..'')) \<and>
   compilePattern (unix_env (str ''/w'')) (str ''**/'') =
     Return (Inl (InvalidWildcard (str ''**/'')))"
  by (simp add: eval_defs)

text \<open>
  C8, as amended. For a source that is not empty and does not begin with \<^verbatim>\<open>%\<close>,
  \<^verbatim>\<open>compilePattern\<close> returns the invalid-wildcard error, and no matcher, exactly when one
  of its alternatives, once made absolute (or as written, where that fails), contains
  \<^verbatim>\<open>**\<close> not immediately followed by \<^verbatim>\<open>/\<close>.
\<close>

theorem compilePattern_invalid_wildcard_iff:
  assumes "pattern \<noteq> []" and "hd pattern \<noteq> rn CHR ''%''"
  shows "(compilePattern e pattern = Return (Inl (InvalidWildcard pattern))) =
         (\<exists>alt \<in> set (split_on (rn CHR ''|'') pattern). bad_stars (resolved e alt))"
proof -
  have r: "rd pattern 0 = Some (hd pattern)"
    using assms(1) by (cases pattern) (simp_all add: rd_def)
  let ?a = "alt_loop e pattern 0 (split_on (rn CHR ''|'') pattern) []"
  have "(compilePattern e pattern = Return (Inl (InvalidWildcard pattern))) =
        (?a = Return (Inl (InvalidWildcard pattern)))"
  proof (cases ?a)
    case Panic
    then show ?thesis by (simp add: alt_loop_no_panic)
  next
    case (Return x)
    show ?thesis
    proof (cases x)
      case (Inl err)
      with Return assms(2) show ?thesis by (simp add: compilePattern_def r)
    next
      case (Inr buf)
      with Return assms(2) show ?thesis
        by (simp add: compilePattern_def r regexp_Compile_def split: option.splits)
    qed
  qed
  then show ?thesis by (simp add: alt_loop_error_iff)
qed

theorem compilePattern_invalid_wildcard_iff_witness:
  "str ''src/**'' \<noteq> [] \<and> hd (str ''src/**'') \<noteq> rn CHR ''%'' \<and>
   compilePattern (unix_env (str ''/w'')) (str ''src/**'') =
     Return (Inl (InvalidWildcard (str ''src/**''))) \<and>
   (\<exists>alt \<in> set (split_on (rn CHR ''|'') (str ''src/**'')).
      bad_stars (resolved (unix_env (str ''/w'')) alt))"
  using compilePattern_invalid_wildcard_iff [of "str ''src/**''" "unix_env (str ''/w'')"]
  by (simp add: eval_defs)

text \<open>
  What the code writes for \<^verbatim>\<open>a|b\<close> in \<^verbatim>\<open>/w\<close>, as pieces and as text:
  \<^verbatim>\<open>^/[\x77]/[\x61]$$|/[\x77]/[\x62]$\<close>.
\<close>

lemma alternatives_source:
  "alt_loop (unix_env (str ''/w'')) (str ''a|b'') 0 (split_on (rn CHR ''|'') (str ''a|b'')) [] =
     Return (Inr [Caret, Slash, HexClass 119, Slash, HexClass 97, Dollar, Dollar, Bar,
                  Slash, HexClass 119, Slash, HexClass 98, Dollar])"
  "regexp_source [Caret, Slash, HexClass 119, Slash, HexClass 97, Dollar, Dollar, Bar,
                  Slash, HexClass 119, Slash, HexClass 98, Dollar] =
     str ''^/['' @ 92 # str ''x77]/['' @ 92 # str ''x61]$$|/['' @ 92 # str ''x77]/['' @
     92 # str ''x62]$''"
  by (simp_all add: eval_defs regexp_source_def)

text \<open>
  C4. The matcher compiled from \<^verbatim>\<open>a|b\<close> in the working directory \<^verbatim>\<open>/w\<close> accepts
  \<^verbatim>\<open>/x/w/b\<close>, of which the second alternative \<^verbatim>\<open>/w/b\<close> is only a suffix: the code writes
  \<^verbatim>\<open>^\<close> before the first alternative only. The first alternative is anchored at both
  ends, so \<^verbatim>\<open>/x/w/a\<close> is rejected.
\<close>

theorem compilePattern_second_alternative_suffix:
  "accepts (compilePattern (unix_env (str ''/w'')) (str ''a|b'')) (str ''/x/w/b'') \<and>
   resolved (unix_env (str ''/w'')) (str ''b'') = str ''/w/b'' \<and>
   \<not> accepts (compilePattern (unix_env (str ''/w'')) (str ''a|b'')) (str ''/x/w/a'')"
  by (simp add: eval_defs)

section \<open>Acceptance by a compiled pattern\<close>














section \<open>Loading and the watch set\<close>

lemma ops_loop_eq:
  "ops_loop e ops t lg =
     (t\<lparr>mops := foldl (op_add e) (mops t) ops\<rparr>,
      lg @ map LogUnknownOp (filter (\<lambda>op. op_bit e op = None) ops))"
  by (induction ops arbitrary: t lg) (auto simp: op_add_def split: option.splits)

text \<open>
  C10. When the match pattern of a rule compiles and its ignore pattern does not, \<^verbatim>\<open>load\<close>
  logs the error and goes on: the rule keeps its compiled match pattern, its ignore
  matcher is \<^verbatim>\<open>nil\<close>, so \<open>match\<close> is the match pattern alone, and its operations are
  read as usual. When the match pattern does not compile, the error is logged and the
  rule is left without a matcher: \<open>match\<close> accepts no path.
\<close>

theorem load_ignore_failure:
  "(Match t \<noteq> [] \<and> Ignore t \<noteq> [] \<and> compilePattern e (Match t) = Return (Inr re) \<and>
    compilePattern e (Ignore t) = Return (Inl err) \<longrightarrow>
      (\<exists>t1 lg. load_task e t = Return (t1, lg) \<and> LogError err \<in> set lg \<and>
         mre t1 = Some re \<and> ire t1 = None \<and> (\<forall>f. match t1 f = MatchString re f) \<and>
         mops t1 = foldl (op_add e) (mops t) (Ops t))) \<and>
   (Match t \<noteq> [] \<and> compilePattern e (Match t) = Return (Inl err) \<longrightarrow>
      (\<exists>t1. load_task e t = Return (t1, [LogError err]) \<and> mre t1 = None \<and>
         (\<forall>f. \<not> match t1 f) \<and> ire t1 = ire t \<and> mops t1 = mops t))"
  by (simp add: load_task_def ops_loop_eq match_def)

theorem load_ignore_failure_witness:
  "Match (new_task (str ''a'') (str ''**'') [] [str ''write'']) \<noteq> [] \<and>
   Ignore (new_task (str ''a'') (str ''**'') [] [str ''write'']) \<noteq> [] \<and>
   compiled (compilePattern (unix_env (str ''/w'')) (str ''a'')) \<and>
   compilePattern (unix_env (str ''/w'')) (str ''**'') = Return (Inl (InvalidWildcard (str ''**''))) \<and>
   (\<exists>t1 lg. load_task (unix_env (str ''/w'')) (new_task (str ''a'') (str ''**'') [] [str ''write''])
       = Return (t1, lg) \<and> ire t1 = None \<and> match t1 (str ''/w/a'') \<and> mops t1 = Write) \<and>
   (\<exists>t1 lg. load_task (unix_env (str ''/w'')) (new_task (str ''**'') [] [] [str ''write''])
       = Return (t1, lg) \<and> mre t1 = None \<and> \<not> match t1 (str ''/w/a'') \<and> mops t1 = 0)"
proof -
  let ?e = "unix_env (str ''/w'')"
  let ?t = "new_task (str ''a'') (str ''**'') [] [str ''write'']"
  let ?u = "new_task (str ''**'') [] [] [str ''write'']"
  let ?re = "Regexp (search [[Bol, One (Among [47]), One (Among [119]), One (Among [47]),
                             One (Among [97]), Eol]])"
  have a: "compilePattern ?e (str ''a'') = Return (Inr ?re)"
    by (simp add: eval_defs)
  have b: "compilePattern ?e (str ''**'') = Return (Inl (InvalidWildcard (str ''**'')))"
    by (simp add: eval_defs)
  have m: "MatchString ?re (str ''/w/a'')" by (simp add: search_def)
  have o: "foldl (op_add ?e) 0 [str ''write''] = Write"
    by (simp add: op_add_def op_bit_def unix_env_def upper_ascii_def)
  from load_ignore_failure [of ?t ?e ?re "InvalidWildcard (str ''**'')"] a b
  obtain t1 lg where 1: "load_task ?e ?t = Return (t1, lg)" "ire t1 = None"
      "\<forall>f. match t1 f = MatchString ?re f" "mops t1 = foldl (op_add ?e) (mops ?t) (Ops ?t)"
    by (auto simp: new_task_def)
  from load_ignore_failure [of ?u ?e ?re "InvalidWildcard (str ''**'')"] b
  obtain t2 where 2: "load_task ?e ?u = Return (t2, [LogError (InvalidWildcard (str ''**''))])"
      "mre t2 = None" "\<forall>f. \<not> match t2 f" "mops t2 = mops ?u"
    by (auto simp: new_task_def)
  have "\<exists>t1 lg. load_task ?e ?t = Return (t1, lg) \<and> ire t1 = None \<and> match t1 (str ''/w/a'') \<and>
          mops t1 = Write"
    using 1 m o by (auto simp: new_task_def)
  moreover have "\<exists>t1 lg. load_task ?e ?u = Return (t1, lg) \<and> mre t1 = None \<and>
          \<not> match t1 (str ''/w/a'') \<and> mops t1 = 0"
    using 2 by (auto simp: new_task_def)
  ultimately show ?thesis using a b by (simp add: new_task_def)
qed


lemma tasks_loop_dup:
  "dup (tasks_loop ts path dir st) =
     (if \<exists>t \<in> set ts. match t path then (dup st)(dir \<mapsto> True) else dup st)"
  by (induction ts) auto

lemma match_mops_update: "match (t\<lparr>mops := m\<rparr>) f = match t f"
  by (simp add: match_def)

lemma tasks_loop_mops:
  "tasks_loop (map (\<lambda>t. t\<lparr>mops := m t\<rparr>) ts) path dir st = tasks_loop ts path dir st"
  by (induction ts) (simp_all add: match_mops_update)

lemma walkFn_mops:
  "walkFn e (map (\<lambda>t. t\<lparr>mops := m t\<rparr>) ts) en st = walkFn e ts en st"
  by (simp add: walkFn_def tasks_loop_mops Let_def split: prod.splits info.splits)

lemma walk_mops:
  "walk e (map (\<lambda>t. t\<lparr>mops := m t\<rparr>) ts) es st = walk e ts es st"
  by (induction es arbitrary: st) (simp_all add: walkFn_mops)

lemma walkFn_dom:
  "fi \<noteq> NoInfo \<Longrightarrow>
   snd (walkFn e ts (p, fi, er) st) = False \<and>
   dom (dup (fst (walkFn e ts (p, fi, er) st))) =
     dom (dup st) \<union> (if fi = IsFile \<and> (\<exists>t \<in> set ts. match t p) then {Dir e p} else {})"
  by (cases fi) (auto simp: walkFn_def tasks_loop_dup Let_def)

lemma walk_dom:
  "\<forall>en \<in> set es. fst (snd en) \<noteq> NoInfo \<Longrightarrow>
   dom (dup (fst (walk e ts es st))) =
     dom (dup st) \<union> {Dir e p | p er. (p, IsFile, er) \<in> set es \<and> (\<exists>t \<in> set ts. match t p)}"
proof (induction es arbitrary: st)
  case Nil
  show ?case by simp
next
  case (Cons en es)
  obtain p fi er where en: "en = (p, fi, er)" by (cases en) auto
  from Cons.prems en have ni: "fi \<noteq> NoInfo" by simp
  from Cons.prems have rest: "\<forall>en \<in> set es. fst (snd en) \<noteq> NoInfo" by simp
  define st1 where "st1 = fst (walkFn e ts (p, fi, er) st)"
  note f = walkFn_dom [OF ni, of e ts p er st]
  have w: "walk e ts (en # es) st = walk e ts es st1"
    using f by (cases "walkFn e ts (p, fi, er) st") (simp add: en st1_def)
  have d1: "dom (dup st1) =
      dom (dup st) \<union> (if fi = IsFile \<and> (\<exists>t \<in> set ts. match t p) then {Dir e p} else {})"
    using f by (simp add: st1_def)
  have "dom (dup (fst (walk e ts (en # es) st))) =
        dom (dup st1) \<union> {Dir e p | p er. (p, IsFile, er) \<in> set es \<and> (\<exists>t \<in> set ts. match t p)}"
    unfolding w by (rule Cons.IH [OF rest])
  also have "\<dots> = dom (dup st) \<union>
        {Dir e q | q er. (q, IsFile, er) \<in> set (en # es) \<and> (\<exists>t \<in> set ts. match t q)}"
    unfolding d1 en by auto
  finally show ?case .
qed

text \<open>
  C5, as amended. On a walk whose entries all have a \<^verbatim>\<open>FileInfo\<close>, the watch set is the
  root together with the parent directory of every regular file that \<open>match\<close> of some
  rule accepts: the match pattern accepts the path and the ignore pattern, where there
  is one, rejects it. The operation masks are not consulted: changing them changes
  nothing.
\<close>

theorem watch_set_uses_match:
  "((\<forall>en \<in> set es. fst (snd en) \<noteq> NoInfo) \<longrightarrow>
      dom (dup (fst (walk e ts es (watch_init file root)))) =
        {root} \<union> {Dir e p | p er. (p, IsFile, er) \<in> set es \<and> (\<exists>t \<in> set ts. match t p)}) \<and>
   walk e (map (\<lambda>t. t\<lparr>mops := m t\<rparr>) ts) es st = walk e ts es st"
  by (simp add: walk_dom walk_mops watch_init_def)

text \<open>
  C5, counterexample. The rule with match pattern \<^verbatim>\<open>sub/*.txt\<close> and ignore pattern
  \<^verbatim>\<open>sub/a.txt\<close>, loaded in \<^verbatim>\<open>/w\<close>: the match pattern alone accepts \<^verbatim>\<open>/w/sub/a.txt\<close>, and the
  walk over that one file does not add \<^verbatim>\<open>/w/sub\<close>, because the ignore pattern is consulted.
\<close>

theorem watch_set_ignored_file:
  "accepts (compilePattern (unix_env (str ''/w'')) (str ''sub/*.txt'')) (str ''/w/sub/a.txt'') \<and>
   dup (fst (walk (unix_env (str ''/w''))
               (rules_of (load_loop (unix_env (str ''/w''))
                  [new_task (str ''sub/*.txt'') (str ''sub/a.txt'') [] []]))
               [(str ''/w/sub/a.txt'', IsFile, False)]
               (watch_init (str ''/w/goemon.yml'') (str ''/w''))))
     (str ''/w/sub'') = None"
proof -
  let ?e = "unix_env (str ''/w'')"
  have a: "compilePattern ?e (str ''sub/*.txt'') =
      Return (Inr (Regexp (search [[Bol, One (Among [47]), One (Among [119]), One (Among [47]),
        One (Among [115]), One (Among [117]), One (Among [98]), One (Among [47]),
        Plus AnyButSlash, One (Among [46]), One (Among [116]), One (Among [120]),
        One (Among [116]), Eol]])))"
    by (simp add: eval_defs)
  have b: "compilePattern ?e (str ''sub/a.txt'') =
      Return (Inr (Regexp (search [[Bol, One (Among [47]), One (Among [119]), One (Among [47]),
        One (Among [115]), One (Among [117]), One (Among [98]), One (Among [47]),
        One (Among [97]), One (Among [46]), One (Among [116]), One (Among [120]),
        One (Among [116]), Eol]])))"
    by (simp add: eval_defs)
  have d: "Dir ?e (str ''/w/sub/a.txt'') = str ''/w/sub''"
    by (simp add: unix_env_def unixDir_def Clean_def clean_step_def)
  show ?thesis
    using a b d
    by (simp add: load_task_def new_task_def walkFn_def watch_init_def match_def search_def)
qed

theorem watch_set_uses_match_witness:
  "list_all (\<lambda>en. fst (snd en) \<noteq> NoInfo) [(str ''/w/sub/b.txt'', IsFile, False)] \<and>
   dom (dup (fst (walk (unix_env (str ''/w''))
               (rules_of (load_loop (unix_env (str ''/w''))
                  [new_task (str ''sub/*.txt'') (str ''sub/a.txt'') [] []]))
               [(str ''/w/sub/b.txt'', IsFile, False)]
               (watch_init (str ''/w/goemon.yml'') (str ''/w''))))) =
     {str ''/w'', str ''/w/sub''}"
proof -
  let ?e = "unix_env (str ''/w'')"
  let ?ts = "rules_of (load_loop ?e [new_task (str ''sub/*.txt'') (str ''sub/a.txt'') [] []])"
  have a: "compilePattern ?e (str ''sub/*.txt'') =
      Return (Inr (Regexp (search [[Bol, One (Among [47]), One (Among [119]), One (Among [47]),
        One (Among [115]), One (Among [117]), One (Among [98]), One (Among [47]),
        Plus AnyButSlash, One (Among [46]), One (Among [116]), One (Among [120]),
        One (Among [116]), Eol]])))"
    by (simp add: eval_defs)
  have b: "compilePattern ?e (str ''sub/a.txt'') =
      Return (Inr (Regexp (search [[Bol, One (Among [47]), One (Among [119]), One (Among [47]),
        One (Among [115]), One (Among [117]), One (Among [98]), One (Among [47]),
        One (Among [97]), One (Among [46]), One (Among [116]), One (Among [120]),
        One (Among [116]), Eol]])))"
    by (simp add: eval_defs)
  have d: "Dir ?e (str ''/w/sub/b.txt'') = str ''/w/sub''"
    by (simp add: unix_env_def unixDir_def Clean_def clean_step_def)
  have m: "\<exists>t \<in> set ?ts. match t (str ''/w/sub/b.txt'')"
    using a b by (simp add: load_task_def new_task_def match_def search_def)
  have h: "\<forall>en \<in> set [(str ''/w/sub/b.txt'', IsFile, False)]. fst (snd en) \<noteq> NoInfo" by simp
  have "dom (dup (fst (walk ?e ?ts [(str ''/w/sub/b.txt'', IsFile, False)]
               (watch_init (str ''/w/goemon.yml'') (str ''/w''))))) =
        {str ''/w''} \<union> {Dir ?e p | p er. (p, IsFile, er) \<in> set [(str ''/w/sub/b.txt'', IsFile, False)]
              \<and> (\<exists>t \<in> set ?ts. match t p)}"
    using watch_set_uses_match [of "[(str ''/w/sub/b.txt'', IsFile, False)]" ?e ?ts
        "str ''/w/goemon.yml''" "str ''/w''"] h by blast
  also have "\<dots> = {str ''/w'', str ''/w/sub''}"
    using m d by auto
  finally show ?thesis by simp
qed

section \<open>The pipeline of one event\<close>





section \<open>Single flight and the gate of the restart\<close>

lemma exec_invariant:
  assumes "exec e s0 acts = Some s" and "P s0"
    and "\<And>s a s1. P s \<Longrightarrow> step e s a = Some s1 \<Longrightarrow> P s1"
  shows "P s"
  using assms(1,2)
proof (induction acts arbitrary: s0)
  case Nil
  then show ?case by simp
next
  case (Cons a acts)
  then obtain s1 where s1: "step e s0 a = Some s1" "exec e s1 acts = Some s"
    by (auto split: option.splits)
  from assms(3) [OF Cons.prems(2) s1(1)] have "P s1" .
  with Cons.IH s1(2) show ?case by blast
qed

lemma count_update:
  "k < length xs \<Longrightarrow>
   length (filter P (xs[k := y])) + (if P (xs ! k) then 1 else 0) =
   length (filter P xs) + (if P y then 1 else 0)"
proof (induction xs arbitrary: k)
  case Nil
  then show ?case by simp
next
  case (Cons x xs)
  then show ?case by (cases k) auto
qed

lemma count_update_same:
  "k < length xs \<Longrightarrow> P y = P (xs ! k) \<Longrightarrow>
   length (filter P (xs[k := y])) = length (filter P xs)"
  using count_update [of k xs P y] by (simp split: if_splits)

lemma flight_inv_init: "flight_inv (init_sys ts m)"
  by (simp add: flight_inv_def init_sys_def pipelines_of_def)

lemma flight_inv_dispatch:
  assumes "flight_inv s" and "step e s (Dispatch evt i) = Some s1"
  shows "flight_inv s1"
proof (cases "selects e (rules s ! i) evt \<and> \<not> hit (rules s ! i)")
  case False
  with assms show ?thesis by (auto simp: step_def split: if_splits)
next
  case True
  from assms(2) have i: "i < length (rules s)" by (auto simp: step_def split: if_splits)
  from assms(2) True i have s1: "s1 = s\<lparr>rules := (rules s)[i := (rules s ! i)\<lparr>hit := True\<rparr>],
                       procs := procs s @ [\<lparr>prule = i, pc = PInc\<rparr>]\<rparr>"
    by (auto simp: step_def split: if_splits)
  have "pipelines_of s i = 0" using assms(1) True i by (simp add: flight_inv_def)
  then show ?thesis
    using assms(1) i unfolding s1 flight_inv_def pipelines_of_def
    by (auto simp: nth_list_update)
qed

lemma flight_inv_proc:
  assumes "flight_inv s" and "proc_step s k ok = Some s1"
  shows "flight_inv s1"
proof -
  from assms(2) have k: "k < length (procs s)" by (auto simp: proc_step_def split: if_splits)
  let ?p = "procs s ! k"
  let ?i = "prule ?p"
  have pi: "?i < length (rules s)" using assms(1) k by (auto simp: flight_inv_def)
  have keep: "flight_inv (s\<lparr>procs := (procs s)[k := ?p\<lparr>pc := x\<rparr>]\<rparr>)"
    if "running x = running (pc ?p)" for x
  proof -
    have "length (filter (\<lambda>p. prule p = j \<and> running (pc p)) ((procs s)[k := ?p\<lparr>pc := x\<rparr>])) =
          length (filter (\<lambda>p. prule p = j \<and> running (pc p)) (procs s))" for j
      using k that by (intro count_update_same) simp_all
    moreover have "\<forall>p \<in> set ((procs s)[k := ?p\<lparr>pc := x\<rparr>]). prule p < length (rules s)"
      using assms(1) pi by (auto simp: flight_inv_def dest!: set_update_subset_insert [THEN subsetD])
    ultimately show ?thesis using assms(1) by (simp add: flight_inv_def pipelines_of_def)
  qed
  have keepc: "flight_inv (s\<lparr>counter := c, procs := (procs s)[k := ?p\<lparr>pc := x\<rparr>]\<rparr>)"
    if "running x = running (pc ?p)" for x c
    using keep [OF that] by (simp add: flight_inv_def pipelines_of_def)
  show ?thesis
  proof (cases "pc ?p")
    case PInc
    with assms(2) k keepc [of "PRun (Commands (rules s ! ?i))"] show ?thesis
      by (auto simp: proc_step_def Let_def)
  next
    case (PRun cs)
    with assms(2) k keep [of PClear] keep [of "PRun (tl cs)"] show ?thesis
      by (cases cs) (auto simp: proc_step_def Let_def split: if_splits)
  next
    case PClear
    with assms(2) k have s1: "s1 = s\<lparr>rules := (rules s)[?i := (rules s ! ?i)\<lparr>hit := False\<rparr>],
                    procs := (procs s)[k := ?p\<lparr>pc := PDec\<rparr>]\<rparr>"
      by (auto simp: proc_step_def Let_def)
    have cnt: "length (filter (\<lambda>p. prule p = j \<and> running (pc p)) ((procs s)[k := ?p\<lparr>pc := PDec\<rparr>])) +
               (if ?i = j then 1 else 0) =
               length (filter (\<lambda>p. prule p = j \<and> running (pc p)) (procs s))" for j
      using count_update [OF k, of "\<lambda>p. prule p = j \<and> running (pc p)" "?p\<lparr>pc := PDec\<rparr>"] PClear
      by simp
    have b: "\<forall>p \<in> set ((procs s)[k := ?p\<lparr>pc := PDec\<rparr>]). prule p < length (rules s)"
      using assms(1) pi by (auto simp: flight_inv_def dest!: set_update_subset_insert [THEN subsetD])
    have "\<forall>j < length (rules s).
            length (filter (\<lambda>p. prule p = j \<and> running (pc p)) ((procs s)[k := ?p\<lparr>pc := PDec\<rparr>])) =
            (if hit ((rules s)[?i := (rules s ! ?i)\<lparr>hit := False\<rparr>] ! j) then 1 else 0)"
    proof (intro allI impI)
      fix j assume j: "j < length (rules s)"
      have old: "length (filter (\<lambda>p. prule p = j \<and> running (pc p)) (procs s)) =
                 (if hit (rules s ! j) then 1 else 0)"
        using assms(1) j by (simp add: flight_inv_def pipelines_of_def)
      show "length (filter (\<lambda>p. prule p = j \<and> running (pc p)) ((procs s)[k := ?p\<lparr>pc := PDec\<rparr>])) =
            (if hit ((rules s)[?i := (rules s ! ?i)\<lparr>hit := False\<rparr>] ! j) then 1 else 0)"
        using cnt [of j] old j pi by (auto simp: nth_list_update split: if_splits)
    qed
    with b assms(1) show ?thesis unfolding s1 by (simp add: flight_inv_def pipelines_of_def)
  next
    case PDec
    with assms(2) k keepc [of PDone] show ?thesis
      by (auto simp: proc_step_def Let_def)
  next
    case PDone
    with assms(2) k show ?thesis by (auto simp: proc_step_def Let_def)
  qed
qed

lemma flight_inv_reload:
  assumes "flight_inv s"
  shows "flight_inv (s\<lparr>rules := rules s @ map (\<lambda>t. t\<lparr>hit := False\<rparr>) ts,
                  conf := [length (rules s) ..< length (rules s) + length ts]\<rparr>)"
proof -
  have z: "length (filter (\<lambda>p. prule p = j \<and> running (pc p)) (procs s)) = 0"
    if "length (rules s) \<le> j" for j
    using assms that by (auto simp: flight_inv_def filter_empty_conv)
  show ?thesis
    using assms z by (auto simp: flight_inv_def pipelines_of_def nth_append)
qed

lemma flight_inv_step:
  assumes "flight_inv s" and "step e s a = Some s1"
  shows "flight_inv s1"
proof (cases a)
  case (Dispatch evt i)
  with assms flight_inv_dispatch show ?thesis by blast
next
  case (Proc k ok)
  with assms flight_inv_proc [of s k ok s1] show ?thesis by (simp add: step_def)
next
  case SupStep
  with assms show ?thesis
    by (auto simp: step_def sup_step_def flight_inv_def pipelines_of_def split: sup_pc.splits)
next
  case Signal
  with assms show ?thesis
    by (auto simp: step_def flight_inv_def pipelines_of_def split: if_splits)
next
  case (Reload ts)
  with assms flight_inv_reload [of s ts] show ?thesis by (auto simp: step_def)
qed

lemma flight_inv_reachable:
  "exec e (init_sys ts m) acts = Some s \<Longrightarrow> flight_inv s"
  by (rule exec_invariant [where P = flight_inv]) (auto intro: flight_inv_init flight_inv_step)


lemma nth_update_any:
  "xs[j := v] ! i = (if i = j \<and> j < length xs then v else xs ! i)"
  by (cases "j < length xs") (auto simp: nth_list_update list_update_beyond)

lemma hit_set_only_by_dispatch:
  assumes "step e s a = Some s1" and "i < length (rules s)"
    and "\<not> hit (rules s ! i)" and "hit (rules s1 ! i)"
  shows "\<exists>evt. a = Dispatch evt i \<and> selects e (rules s ! i) evt"
proof (cases a)
  case (Dispatch evt j)
  with assms show ?thesis
    by (cases "j = i") (auto simp: step_def nth_update_any split: if_splits)
next
  case (Proc k ok)
  with assms show ?thesis
    by (auto simp: step_def proc_step_def Let_def nth_update_any
             split: if_splits ppc.splits list.splits)
next
  case SupStep
  with assms show ?thesis by (auto simp: step_def sup_step_def split: sup_pc.splits)
next
  case Signal
  with assms show ?thesis by (auto simp: step_def split: if_splits)
next
  case (Reload ts)
  with assms show ?thesis by (auto simp: step_def nth_append)
qed

lemma hit_cleared_only_by_owner:
  assumes "step e s a = Some s1" and "i < length (rules s)"
    and "hit (rules s ! i)" and "\<not> hit (rules s1 ! i)"
  shows "\<exists>k ok. a = Proc k ok \<and> k < length (procs s) \<and> prule (procs s ! k) = i \<and>
           pc (procs s ! k) = PClear"
proof (cases a)
  case (Dispatch evt j)
  with assms show ?thesis
    by (cases "j = i") (auto simp: step_def nth_update_any split: if_splits)
next
  case (Proc k ok)
  with assms show ?thesis
    by (auto simp: step_def proc_step_def Let_def nth_update_any
             split: if_splits ppc.splits list.splits)
next
  case SupStep
  with assms show ?thesis by (auto simp: step_def sup_step_def split: sup_pc.splits)
next
  case Signal
  with assms show ?thesis by (auto simp: step_def split: if_splits)
next
  case (Reload ts)
  with assms show ?thesis by (auto simp: step_def nth_append)
qed

text \<open>
  C2. In every state the system reaches, whatever the interleaving: a rule has at most
  one pipeline running, and has one exactly when its flag is set; an event for a rule
  whose flag is set leaves the state as it is; a flag goes from false to true only in
  the dispatch of an event the rule selects; and it goes from true to false only in the
  step of a pipeline of that rule that has left its loop over the commands, after which
  the rule has no pipeline running.
\<close>

theorem single_flight:
  assumes "exec e (init_sys ts m) acts = Some s"
  shows "(\<forall>i < length (rules s).
            pipelines_of s i \<le> 1 \<and> (hit (rules s ! i) = (pipelines_of s i = 1))) \<and>
         (\<forall>evt i. i \<in> set (conf s) \<and> hit (rules s ! i) \<longrightarrow> step e s (Dispatch evt i) = Some s) \<and>
         (\<forall>a s1 i. step e s a = Some s1 \<and> i < length (rules s) \<and>
            \<not> hit (rules s ! i) \<and> hit (rules s1 ! i) \<longrightarrow>
              (\<exists>evt. a = Dispatch evt i \<and> selects e (rules s ! i) evt)) \<and>
         (\<forall>a s1 i. step e s a = Some s1 \<and> i < length (rules s) \<and>
            hit (rules s ! i) \<and> \<not> hit (rules s1 ! i) \<longrightarrow>
              (\<exists>k ok. a = Proc k ok \<and> k < length (procs s) \<and> prule (procs s ! k) = i \<and>
                 pc (procs s ! k) = PClear \<and> pipelines_of s1 i = 0))"
proof -
  note inv = flight_inv_reachable [OF assms]
  have 1: "\<forall>i < length (rules s).
            pipelines_of s i \<le> 1 \<and> (hit (rules s ! i) = (pipelines_of s i = 1))"
    using inv by (simp add: flight_inv_def)
  have 2: "\<forall>evt i. i \<in> set (conf s) \<and> hit (rules s ! i) \<longrightarrow> step e s (Dispatch evt i) = Some s"
    using inv by (auto simp: flight_inv_def step_def)
  have 3: "\<forall>a s1 i. step e s a = Some s1 \<and> i < length (rules s) \<and>
            \<not> hit (rules s ! i) \<and> hit (rules s1 ! i) \<longrightarrow>
              (\<exists>evt. a = Dispatch evt i \<and> selects e (rules s ! i) evt)"
    using hit_set_only_by_dispatch by blast
  have 4: "\<forall>a s1 i. step e s a = Some s1 \<and> i < length (rules s) \<and>
            hit (rules s ! i) \<and> \<not> hit (rules s1 ! i) \<longrightarrow>
              (\<exists>k ok. a = Proc k ok \<and> k < length (procs s) \<and> prule (procs s ! k) = i \<and>
                 pc (procs s ! k) = PClear \<and> pipelines_of s1 i = 0)"
  proof (intro allI impI)
    fix a s1 i
    assume h: "step e s a = Some s1 \<and> i < length (rules s) \<and>
            hit (rules s ! i) \<and> \<not> hit (rules s1 ! i)"
    then obtain k ok where k: "a = Proc k ok" "k < length (procs s)" "prule (procs s ! k) = i"
        "pc (procs s ! k) = PClear"
      using hit_cleared_only_by_owner [of e s a s1 i] by blast
    have l: "length (rules s1) = length (rules s)"
      using h k by (auto simp: step_def proc_step_def Let_def)
    have "flight_inv s1" using flight_inv_step [OF inv] h by blast
    then have "pipelines_of s1 i = 0" using h l by (simp add: flight_inv_def)
    with k show "\<exists>k ok. a = Proc k ok \<and> k < length (procs s) \<and> prule (procs s ! k) = i \<and>
                 pc (procs s ! k) = PClear \<and> pipelines_of s1 i = 0" by blast
  qed
  from 1 2 3 4 show ?thesis by blast
qed





lemma demo_rules_eq:
  "demo_rules =
     [\<lparr> Match = str ''*.txt'', Ignore = [], Commands = [str ''make''], Ops = [],
        mre = Some (Regexp (search [[Bol, One (Among [47]), One (Among [119]), One (Among [47]),
          Plus AnyButSlash, One (Among [46]), One (Among [116]), One (Among [120]),
          One (Among [116]), Eol]])),
        ire = None, mops = 0, hit = False \<rparr>]"
  by (simp add: demo_rules_def demo_env_def load_task_def new_task_def eval_defs)

lemma demo_selects: "selects demo_env (demo_rules ! 0) demo_event"
  by (simp add: demo_rules_eq selects_def demo_env_def unix_env_def ToSlash_def demo_event_def
        match_def matchOp_def search_def)

lemmas run_defs =
  step_def proc_step_def sup_step_def init_sys_def pipelines_of_def Let_def

theorem single_flight_witness:
  "\<exists>s. exec demo_env (init_sys demo_rules True)
          [Dispatch demo_event 0, Proc 0 True, Dispatch demo_event 0] = Some s \<and>
        hit (rules s ! 0) \<and> pipelines_of s 0 = 1 \<and> pipelines_of s 0 \<le> 1 \<and>
        step demo_env s (Dispatch demo_event 0) = Some s"
proof -
  obtain s where s:
    "exec demo_env (init_sys demo_rules True)
       [Dispatch demo_event 0, Proc 0 True, Dispatch demo_event 0] = Some s"
    "0 < length (rules s)" "hit (rules s ! 0)" "0 \<in> set (conf s)"
    using demo_selects by (simp add: demo_rules_eq run_defs)
  from single_flight [OF s(1)] s show ?thesis by auto
qed



end
